theory Spec2Isabelle
  imports Main "HOL-Library.Char_ord" "HOL-Library.List_Lexorder"
begin

section \<open>The short-link store of \<^verbatim>\<open>lib/storage/s3.ts\<close>\<close>

text \<open>
  The class \<^verbatim>\<open>StorageS3\<close> keeps a small metadata row per short link in a DynamoDB table
  and the link's content in an S3 bucket. Strings are \<open>string\<close> (character lists) with the
  lexicographic order on character codes: on the ASCII text of a hash this is both the
  order in which DynamoDB returns the sort keys of a partition and the order of the
  \<^verbatim>\<open><\<close> of JavaScript. \<^verbatim>\<open>substring(0, i)\<close> is \<open>take i\<close> and \<^verbatim>\<open>.length\<close> is \<open>length\<close>.
\<close>

subsection \<open>Constants\<close>

definition PREFIX_LENGTH :: nat where
  "PREFIX_LENGTH = 6"

definition MIN_STORED_ID_LENGTH :: nat where
  "MIN_STORED_ID_LENGTH = 9"

subsection \<open>Errors\<close>

text \<open>
  \<open>Error msg\<close> is \<^verbatim>\<open>new Error(msg)\<close>, thrown by the class itself. \<open>ServiceException\<close> is
  whatever a client of a backing service throws (time-out, throttling, a rejected
  expression); the class never builds one.
\<close>

datatype error = Error string | ServiceException string

text \<open>
  The outcome of one call to a backing service is not decided by the class: every model of
  a service call takes a \<open>fault\<close>, the exception the service raises for this call, if any.
\<close>

type_synonym fault = "error option"

subsection \<open>The metadata table\<close>

text \<open>
  A row as \<^verbatim>\<open>storeItem\<close> writes it. \<open>clicks\<close> is \<^verbatim>\<open>stats.M.clicks.N\<close>. A date is the number
  of milliseconds since the epoch; the row holds its ISO text, which \<^verbatim>\<open>new Date\<close> reads
  back to the same instant. \<open>named_metadata\<close> is never written by this class, only read.
\<close>

record item =
  item_prefix :: string
  unique_subhash :: string
  full_hash :: string
  clicks :: int
  creation_ip :: string
  creation_date :: "nat option"
  named_metadata :: "string option"

text \<open>
  The table has the partition key \<open>prefix\<close> and the sort key \<open>unique_subhash\<close>; it is the
  list of its rows, and holds at most one row per primary key.
\<close>

definition key :: "item \<Rightarrow> string \<times> string" where
  "key it = (item_prefix it, unique_subhash it)"

definition wf_table :: "item list \<Rightarrow> bool" where
  "wf_table tbl = distinct (map key tbl)"

definition lookup :: "item list \<Rightarrow> string \<times> string \<Rightarrow> item option" where
  "lookup tbl k = find (\<lambda>x. key x = k) tbl"

text \<open>
  What the table says about short ids: \<open>claims tbl (p, s)\<close> is the full hash that the row of
  the short id \<open>s\<close> in the partition \<open>p\<close> holds, if there is such a row. The candidate of
  length \<open>i\<close> of a hash is claimed by another content when its row holds a different hash.
\<close>

definition claims :: "item list \<Rightarrow> string \<times> string \<rightharpoonup> string" where
  "claims tbl k = map_option full_hash (lookup tbl k)"

definition claimedByOther :: "item list \<Rightarrow> string \<Rightarrow> nat \<Rightarrow> bool" where
  "claimedByOther tbl h i =
     (case claims tbl (take PREFIX_LENGTH h, take i h) of
        None \<Rightarrow> False
      | Some f \<Rightarrow> f \<noteq> h)"

text \<open>\<^verbatim>\<open>putItem\<close> replaces the row with the same primary key, or adds a row.\<close>

definition putItem :: "fault \<Rightarrow> item list \<Rightarrow> item \<Rightarrow> error + item list" where
  "putItem f tbl it =
     (case f of
        Some e \<Rightarrow> Inl e
      | None \<Rightarrow> Inr (it # filter (\<lambda>x. key x \<noteq> key it) tbl))"

text \<open>
  \<^verbatim>\<open>query\<close> with the key condition \<^verbatim>\<open>prefix = :prefix\<close> returns the rows of one partition,
  in ascending order of the sort key.
\<close>

definition partitionRows :: "item list \<Rightarrow> string \<Rightarrow> item list" where
  "partitionRows tbl p = sort_key unique_subhash (filter (\<lambda>x. item_prefix x = p) tbl)"

definition query :: "fault \<Rightarrow> item list \<Rightarrow> string \<Rightarrow> error + item list" where
  "query f tbl p =
     (case f of
        Some e \<Rightarrow> Inl e
      | None \<Rightarrow> Inr (partitionRows tbl p))"


text \<open>
  \<^verbatim>\<open>updateItem\<close> with \<^verbatim>\<open>SET stats.clicks = stats.clicks + :inc\<close>: on a key without a row the
  path \<^verbatim>\<open>stats.clicks\<close> does not exist and the service rejects the update.
\<close>

definition updateItem :: "fault \<Rightarrow> item list \<Rightarrow> string \<times> string \<Rightarrow> error + item list" where
  "updateItem f tbl k =
     (case f of
        Some e \<Rightarrow> Inl e
      | None \<Rightarrow>
          (case lookup tbl k of
             None \<Rightarrow> Inl (ServiceException ''ValidationException'')
           | Some it \<Rightarrow>
               Inr (map (\<lambda>x. if key x = k then x\<lparr>clicks := clicks x + 1\<rparr> else x) tbl)))"

subsection \<open>The blob store\<close>

text \<open>
  Modelled from the spec: \<^verbatim>\<open>S3Bucket\<close> of \<^verbatim>\<open>lib/s3-handler.js\<close> is not among the sources. A
  blob is keyed by its key and the namespace (the storage prefix) it is put under;
  \<^verbatim>\<open>get\<close> answers \<^verbatim>\<open>{hit: false}\<close> (here \<open>None\<close>) when there is no such blob and the stored
  bytes otherwise.
\<close>

type_synonym bucket = "string \<times> string \<rightharpoonup> string"

definition s3_put :: "fault \<Rightarrow> bucket \<Rightarrow> string \<Rightarrow> string \<Rightarrow> string \<Rightarrow> error + bucket" where
  "s3_put f b k v path =
     (case f of
        Some e \<Rightarrow> Inl e
      | None \<Rightarrow> Inr (b((path, k) \<mapsto> v)))"


subsection \<open>The class\<close>

text \<open>
  The fields of a \<^verbatim>\<open>StorageS3\<close>: \<open>storagePrefix\<close> is \<^verbatim>\<open>this.prefix\<close>, \<open>dynamoDb\<close> the rows of
  the table \<^verbatim>\<open>this.table\<close>, \<open>s3\<close> the blobs of the bucket. A method that writes returns the
  object after the call next to its result.
\<close>

record StorageS3 =
  storagePrefix :: string
  dynamoDb :: "item list"
  s3 :: bucket

record StoredObject =
  so_prefix :: string
  so_uniqueSubHash :: string
  fullHash :: string
  config :: string

text \<open>
  A request: \<open>get\<close> reads a header (\<open>None\<close> is \<^verbatim>\<open>undefined\<close>), \<open>ip\<close> is \<^verbatim>\<open>req.ip!\<close>, which
  the non-null assertion takes to be a string.
\<close>

record request =
  get :: "string \<Rightarrow> string option"
  ip :: string

record SubhashResult =
  prefix :: string
  uniqueSubHash :: string
  alreadyPresent :: bool


subsection \<open>\<^verbatim>\<open>_.indexOf(array, item, true)\<close>\<close>

text \<open>
  With its third argument \<^verbatim>\<open>true\<close>, \<^verbatim>\<open>_.indexOf\<close> of underscore takes the array to be sorted
  and searches it by bisection (\<^verbatim>\<open>_.sortedIndex\<close>): the least position whose element is not
  below the item, and that position is the answer when the element there is the item, and
  \<^verbatim>\<open>-1\<close> otherwise. \<open>array ! mid\<close> is read with \<open>mid < high \<le> length array\<close> only.
\<close>

function sortedIndex_loop :: "string list \<Rightarrow> string \<Rightarrow> nat \<Rightarrow> nat \<Rightarrow> nat" where
  "sortedIndex_loop array v low high =
     (if low < high then
        (let mid = (low + high) div 2 in
         if array ! mid < v then sortedIndex_loop array v (mid + 1) high
         else sortedIndex_loop array v low mid)
      else low)"
  by pat_completeness auto
termination
  by (relation "measure (\<lambda>(array, v, low, high). high - low)") auto

declare sortedIndex_loop.simps [simp del]

definition sortedIndex :: "string list \<Rightarrow> string \<Rightarrow> nat" where
  "sortedIndex array v = sortedIndex_loop array v 0 (length array)"

definition indexOf :: "string list \<Rightarrow> string \<Rightarrow> int" where
  "indexOf array v =
     (if length array \<noteq> 0 then
        (let idx = sortedIndex array v in
         if idx < length array \<and> array ! idx = v then int idx else - 1)
      else - 1)"

subsection \<open>\<^verbatim>\<open>findUniqueSubhash\<close>\<close>

definition exhausted :: "string \<Rightarrow> error" where
  "exhausted hash =
     Error (''Could not find unique subhash for hash '' @ [CHR 0x22] @ hash @ [CHR 0x22])"

text \<open>
  The \<^verbatim>\<open>for\<close> loop, from \<open>i\<close> on. Reading \<^verbatim>\<open>fullHashes[index]\<close> past the end of the array
  gives \<^verbatim>\<open>undefined\<close>, which is not the hash.
\<close>

function findUniqueSubhash_loop ::
  "string list \<Rightarrow> string list \<Rightarrow> string \<Rightarrow> string \<Rightarrow> nat \<Rightarrow> error + SubhashResult" where
  "findUniqueSubhash_loop subHashes fullHashes pfx hash i =
     (if int i < int (length hash) - 1 then
        (let subHash = take i hash;
             index = indexOf subHashes subHash in
         if index = - 1 then
           Inr \<lparr>prefix = pfx, uniqueSubHash = subHash, alreadyPresent = False\<rparr>
         else if nat index < length fullHashes \<and> fullHashes ! nat index = hash then
           Inr \<lparr>prefix = pfx, uniqueSubHash = subHash, alreadyPresent = True\<rparr>
         else findUniqueSubhash_loop subHashes fullHashes pfx hash (i + 1))
      else Inl (exhausted hash))"
  by pat_completeness auto
termination
  by (relation "measure (\<lambda>(subHashes, fullHashes, pfx, hash, i). length hash - i)") auto

declare findUniqueSubhash_loop.simps [simp del]

text \<open>The loop on the rows that the query of a table returns for the partition of a hash.\<close>

definition resolveFrom :: "item list \<Rightarrow> string \<Rightarrow> nat \<Rightarrow> error + SubhashResult" where
  "resolveFrom tbl h i =
     findUniqueSubhash_loop
       (map unique_subhash (partitionRows tbl (take PREFIX_LENGTH h)))
       (map full_hash (partitionRows tbl (take PREFIX_LENGTH h)))
       (take PREFIX_LENGTH h) h i"

definition findUniqueSubhash :: "StorageS3 \<Rightarrow> fault \<Rightarrow> string \<Rightarrow> error + SubhashResult" where
  "findUniqueSubhash this queryFault hash =
     (let pfx = take PREFIX_LENGTH hash in
      case query queryFault (dynamoDb this) pfx of
        Inl e \<Rightarrow> Inl e
      | Inr items \<Rightarrow>
          findUniqueSubhash_loop (map unique_subhash items) (map full_hash items)
            pfx hash MIN_STORED_ID_LENGTH)"

subsection \<open>\<^verbatim>\<open>storeItem\<close>\<close>

text \<open>\<^verbatim>\<open>s.indexOf(c)\<close> for a character: the first position of \<open>c\<close>, or \<^verbatim>\<open>-1\<close>.\<close>

fun str_indexOf :: "string \<Rightarrow> char \<Rightarrow> int" where
  "str_indexOf [] c = - 1"
| "str_indexOf (x # xs) c =
     (if x = c then 0
      else (let r = str_indexOf xs c in if r = - 1 then - 1 else r + 1))"

text \<open>
  The address written as \<^verbatim>\<open>creation_ip\<close> (the lines before the \<^verbatim>\<open>try\<close>). \<^verbatim>\<open>anonymizeIp\<close> of
  \<^verbatim>\<open>lib/utils.js\<close> is not among the sources and is a parameter. \<^verbatim>\<open>a || b\<close> takes \<open>b\<close> when
  \<open>a\<close> is \<^verbatim>\<open>undefined\<close> or the empty string.
\<close>

definition creationIp :: "(string \<Rightarrow> string) \<Rightarrow> request \<Rightarrow> string" where
  "creationIp anonymizeIp req =
     (let ip0 = (case get req ''X-Forwarded-For'' of
                   None \<Rightarrow> anonymizeIp (ip req)
                 | Some h \<Rightarrow> if h = [] then anonymizeIp (ip req) else h);
          commaIndex = str_indexOf ip0 CHR '','' in
      if commaIndex > 0 then
        anonymizeIp (take (nat commaIndex) ip0) @ drop (nat commaIndex) ip0
      else ip0)"

text \<open>\<^verbatim>\<open>now.setSeconds(0, 0)\<close>: the instant \<open>now\<close> with its seconds and milliseconds zeroed.\<close>

definition setSeconds0 :: "nat \<Rightarrow> nat" where
  "setSeconds0 now = now - now mod 60000"

text \<open>
  The two writes are started together (\<^verbatim>\<open>Promise.all\<close>): each one happens unless its own
  service fails, and the call throws when one of them failed. When both fail the model
  rethrows the table's error.
\<close>

definition storeItem ::
  "(string \<Rightarrow> string) \<Rightarrow> StorageS3 \<Rightarrow> fault \<Rightarrow> fault \<Rightarrow> nat \<Rightarrow> StoredObject \<Rightarrow> request
     \<Rightarrow> (error + StoredObject) \<times> StorageS3" where
  "storeItem anonymizeIp this putFault s3Fault now item req =
     (let ip1 = creationIp anonymizeIp req;
          now1 = setSeconds0 now;
          r1 = putItem putFault (dynamoDb this)
                 \<lparr>item_prefix = so_prefix item,
                  unique_subhash = so_uniqueSubHash item,
                  full_hash = fullHash item,
                  clicks = 0,
                  creation_ip = ip1,
                  creation_date = Some now1,
                  named_metadata = None\<rparr>;
          r2 = s3_put s3Fault (s3 this) (fullHash item) (config item) (storagePrefix this);
          this1 = this\<lparr>dynamoDb := (case r1 of Inl e \<Rightarrow> dynamoDb this | Inr t \<Rightarrow> t),
                       s3 := (case r2 of Inl e \<Rightarrow> s3 this | Inr b \<Rightarrow> b)\<rparr>
      in (case r1 of
            Inl e \<Rightarrow> (Inl e, this1)
          | Inr t \<Rightarrow>
              (case r2 of
                 Inl e \<Rightarrow> (Inl e, this1)
               | Inr b \<Rightarrow> (Inr item, this1))))"

subsection \<open>\<^verbatim>\<open>expandId\<close> and \<^verbatim>\<open>incrementViewCount\<close>\<close>

definition getKeyStruct :: "string \<Rightarrow> string \<times> string" where
  "getKeyStruct sid = (take PREFIX_LENGTH sid, sid)"




text \<open>The \<^verbatim>\<open>catch\<close> logs the error and returns; the log is not part of the model.\<close>

definition incrementViewCount :: "StorageS3 \<Rightarrow> fault \<Rightarrow> string \<Rightarrow> (error + unit) \<times> StorageS3" where
  "incrementViewCount this updateFault sid =
     (case updateItem updateFault (dynamoDb this) (getKeyStruct sid) of
        Inl err \<Rightarrow> (Inr (), this)
      | Inr t \<Rightarrow> (Inr (), this\<lparr>dynamoDb := t\<rparr>))"

subsection \<open>The store operation\<close>

text \<open>
  Modelled from the spec: the caller of \<^verbatim>\<open>findUniqueSubhash\<close> and \<^verbatim>\<open>storeItem\<close> (the request
  handler of \<^verbatim>\<open>lib/storage/base.js\<close>) is not among the sources. A store resolves the short id
  of the content's hash against the table as it is, and writes the row and the blob under
  the resolved id. The spec leaves open whether a store whose content is already present
  writes again: \<open>rewrite\<close> is that choice, and every statement below holds for both.
\<close>

record StoreRequest =
  req_hash :: string
  req_content :: string
  req_sender :: request
  req_time :: nat
  req_queryFault :: fault
  req_putFault :: fault
  req_s3Fault :: fault

definition store ::
  "(string \<Rightarrow> string) \<Rightarrow> bool \<Rightarrow> StorageS3 \<Rightarrow> StoreRequest
     \<Rightarrow> (error + SubhashResult) \<times> StorageS3" where
  "store anonymizeIp rewrite this rq =
     (case findUniqueSubhash this (req_queryFault rq) (req_hash rq) of
        Inl e \<Rightarrow> (Inl e, this)
      | Inr result \<Rightarrow>
          if alreadyPresent result \<and> \<not> rewrite then (Inr result, this)
          else
            (case storeItem anonymizeIp this (req_putFault rq) (req_s3Fault rq) (req_time rq)
                    \<lparr>so_prefix = prefix result,
                     so_uniqueSubHash = uniqueSubHash result,
                     fullHash = req_hash rq,
                     config = req_content rq\<rparr> (req_sender rq) of
               (Inl e, this1) \<Rightarrow> (Inl e, this1)
             | (Inr stored, this1) \<Rightarrow> (Inr result, this1)))"

text \<open>Stores one after the other, each on the object the one before left.\<close>

fun store_all ::
  "(string \<Rightarrow> string) \<Rightarrow> bool \<Rightarrow> StorageS3 \<Rightarrow> StoreRequest list
     \<Rightarrow> (error + SubhashResult) list \<times> StorageS3" where
  "store_all anonymizeIp rewrite this [] = ([], this)"
| "store_all anonymizeIp rewrite this (rq # rqs) =
     (case store anonymizeIp rewrite this rq of
        (r, this1) \<Rightarrow>
          (case store_all anonymizeIp rewrite this1 rqs of
             (rs, this2) \<Rightarrow> (r # rs, this2)))"

subsection \<open>The scenario of the specification\<close>

text \<open>
  The data of the concrete scenario: an object with an empty table and an empty bucket, a
  request without forwarding header, and stores of contents whose hashes share the
  partition \<open>''abcdef''\<close>. \<open>scenario_stored\<close> is the object after the first content is stored
  under the short id resolved for it.
\<close>

definition scenario_store :: StorageS3 where
  "scenario_store = \<lparr>storagePrefix = ''state'', dynamoDb = [], s3 = Map.empty\<rparr>"

definition scenario_request :: request where
  "scenario_request = \<lparr>get = (\<lambda>name. None), ip = ''198.51.100.7''\<rparr>"

definition scenario_first :: StoreRequest where
  "scenario_first =
     \<lparr>req_hash = ''abcdef1234567890'', req_content = ''first content'',
      req_sender = scenario_request, req_time = 1700000012345,
      req_queryFault = None, req_putFault = None, req_s3Fault = None\<rparr>"

definition scenario_second :: StoreRequest where
  "scenario_second =
     \<lparr>req_hash = ''abcdef123ZZZZZZZ'', req_content = ''second content'',
      req_sender = scenario_request, req_time = 1700000098765,
      req_queryFault = None, req_putFault = None, req_s3Fault = None\<rparr>"

definition scenario_stored :: StorageS3 where
  "scenario_stored =
     snd (storeItem (\<lambda>a. ''0.0.0.0'') scenario_store None None 1700000012345
            \<lparr>so_prefix = ''abcdef'', so_uniqueSubHash = ''abcdef123'',
             fullHash = ''abcdef1234567890'', config = ''first content''\<rparr>
            scenario_request)"

section \<open>Properties\<close>

subsection \<open>The bisection of \<^verbatim>\<open>_.indexOf\<close>\<close>

text \<open>
  On a sorted array the bisection finds an item exactly when the array holds it, and the
  position it answers holds the item.
\<close>

lemma sortedIndex_loop_bounds:
  assumes "sorted xs" and "high \<le> length xs"
    and "\<forall>k<low. xs ! k < v"
    and "\<forall>k. high \<le> k \<and> k < length xs \<longrightarrow> \<not> xs ! k < v"
  shows "sortedIndex_loop xs v low high \<le> max low high
       \<and> (\<forall>k<sortedIndex_loop xs v low high. xs ! k < v)
       \<and> (\<forall>k. sortedIndex_loop xs v low high \<le> k \<and> k < length xs \<longrightarrow> \<not> xs ! k < v)"
  using assms
proof (induction xs v low high rule: sortedIndex_loop.induct)
  case (1 array v low high)
  show ?case
  proof (cases "low < high")
    case False
    then have "sortedIndex_loop array v low high = low"
      by (subst sortedIndex_loop.simps) simp
    moreover have "\<forall>k. low \<le> k \<and> k < length array \<longrightarrow> \<not> array ! k < v"
      using "1.prems"(4) False by simp
    ultimately show ?thesis using "1.prems"(3) by simp
  next
    case True
    define mid where "mid = (low + high) div 2"
    have mid: "low \<le> mid" "mid < high" using True by (simp_all add: mid_def)
    show ?thesis
    proof (cases "array ! mid < v")
      case below: True
      have lo: "\<forall>k<mid + 1. array ! k < v"
      proof (intro allI impI)
        fix k assume "k < mid + 1"
        then have "k \<le> mid" by simp
        moreover have "mid < length array" using mid "1.prems"(2) by simp
        ultimately have "array ! k \<le> array ! mid"
          using "1.prems"(1) by (rule_tac sorted_nth_mono)
        with below show "array ! k < v" by simp
      qed
      have eq: "sortedIndex_loop array v low high = sortedIndex_loop array v (mid + 1) high"
        using True below by (subst sortedIndex_loop.simps) (simp add: mid_def Let_def)
      have "max (mid + 1) high = max low high" using mid by simp
      then show ?thesis
        using "1.IH"(1)[OF True mid_def below "1.prems"(1) "1.prems"(2) lo "1.prems"(4)]
        unfolding eq by simp
    next
      case notbelow: False
      have hi: "\<forall>k. mid \<le> k \<and> k < length array \<longrightarrow> \<not> array ! k < v"
      proof (intro allI impI)
        fix k assume k: "mid \<le> k \<and> k < length array"
        then have "array ! mid \<le> array ! k"
          using "1.prems"(1) by (rule_tac sorted_nth_mono) simp_all
        with notbelow show "\<not> array ! k < v" by simp
      qed
      have eq: "sortedIndex_loop array v low high = sortedIndex_loop array v low mid"
        using True notbelow by (subst sortedIndex_loop.simps) (simp add: mid_def Let_def)
      have ml: "mid \<le> length array" using mid "1.prems"(2) by simp
      have m: "max low mid = mid" "max low high = high" using mid by simp_all
      show ?thesis
        using "1.IH"(2)[OF True mid_def notbelow "1.prems"(1) ml "1.prems"(3) hi] mid(2)
        unfolding eq m by simp
    qed
  qed
qed

lemma sortedIndex_least:
  assumes "sorted xs"
  shows "sortedIndex xs v \<le> length xs
       \<and> (\<forall>k<sortedIndex xs v. xs ! k < v)
       \<and> (\<forall>k. sortedIndex xs v \<le> k \<and> k < length xs \<longrightarrow> \<not> xs ! k < v)"
proof -
  have "sortedIndex_loop xs v 0 (length xs) \<le> max 0 (length xs)
       \<and> (\<forall>k<sortedIndex_loop xs v 0 (length xs). xs ! k < v)
       \<and> (\<forall>k. sortedIndex_loop xs v 0 (length xs) \<le> k \<and> k < length xs \<longrightarrow> \<not> xs ! k < v)"
    by (rule sortedIndex_loop_bounds[OF assms]) auto
  then show ?thesis
    by (simp add: sortedIndex_def)
qed

lemma indexOf_found:
  assumes "indexOf xs v \<noteq> - 1"
  shows "0 \<le> indexOf xs v \<and> nat (indexOf xs v) < length xs \<and> xs ! nat (indexOf xs v) = v"
proof -
  from assms have "indexOf xs v = int (sortedIndex xs v) \<and> sortedIndex xs v < length xs
      \<and> xs ! sortedIndex xs v = v"
    by (simp add: indexOf_def Let_def split: if_splits)
  then show ?thesis by simp
qed

lemma indexOf_absent_iff:
  assumes "sorted xs"
  shows "indexOf xs v = - 1 \<longleftrightarrow> v \<notin> set xs"
proof
  assume absent: "indexOf xs v = - 1"
  show "v \<notin> set xs"
  proof
    assume "v \<in> set xs"
    then obtain k where k: "k < length xs" "xs ! k = v"
      by (auto simp: in_set_conv_nth)
    define r where "r = sortedIndex xs v"
    from sortedIndex_least[OF assms, of v]
    have r1: "\<forall>j<r. xs ! j < v" and r2: "\<forall>j. r \<le> j \<and> j < length xs \<longrightarrow> \<not> xs ! j < v"
      by (simp_all add: r_def)
    have "\<not> k < r" using r1 k(2) by auto
    then have rk: "r \<le> k" by simp
    then have "xs ! r \<le> xs ! k" using assms k(1) by (rule_tac sorted_nth_mono)
    moreover have "\<not> xs ! r < v" using r2 rk k(1) by simp
    ultimately have "xs ! r = v" using k(2) by simp
    moreover have "r < length xs" using rk k(1) by simp
    moreover have "xs \<noteq> []" using k(1) by auto
    ultimately have "indexOf xs v = int r"
      by (simp add: indexOf_def Let_def r_def)
    with absent show False by simp
  qed
next
  assume notin: "v \<notin> set xs"
  have "\<not> (sortedIndex xs v < length xs \<and> xs ! sortedIndex xs v = v)"
  proof
    assume a: "sortedIndex xs v < length xs \<and> xs ! sortedIndex xs v = v"
    then have "xs ! sortedIndex xs v \<in> set xs" by (intro nth_mem) simp
    with a have "v \<in> set xs" by simp
    with notin show False by simp
  qed
  then show "indexOf xs v = - 1"
    by (auto simp: indexOf_def Let_def)
qed

subsection \<open>The table and the rows of a partition\<close>

lemma lookup_Some: "lookup tbl k = Some x \<Longrightarrow> key x = k \<and> x \<in> set tbl"
  by (induction tbl) (auto simp: lookup_def split: if_splits)

lemma lookup_None_iff: "lookup tbl k = None \<longleftrightarrow> k \<notin> key ` set tbl"
  by (induction tbl) (auto simp: lookup_def)

lemma lookup_distinct: "wf_table tbl \<Longrightarrow> x \<in> set tbl \<Longrightarrow> lookup tbl (key x) = Some x"
  by (induction tbl) (auto simp: lookup_def wf_table_def)

lemma set_partitionRows: "set (partitionRows tbl p) = {x \<in> set tbl. item_prefix x = p}"
  by (simp add: partitionRows_def)

lemma sorted_partitionRows: "sorted (map unique_subhash (partitionRows tbl p))"
  by (simp add: partitionRows_def)

lemma index_absent_lookup:
  "indexOf (map unique_subhash (partitionRows tbl p)) s = - 1 \<longleftrightarrow> lookup tbl (p, s) = None"
proof -
  have "indexOf (map unique_subhash (partitionRows tbl p)) s = - 1
          \<longleftrightarrow> s \<notin> set (map unique_subhash (partitionRows tbl p))"
    by (rule indexOf_absent_iff) (rule sorted_partitionRows)
  also have "\<dots> \<longleftrightarrow> (p, s) \<notin> key ` set tbl"
    by (auto simp: set_partitionRows key_def image_iff)
  finally show ?thesis by (simp add: lookup_None_iff)
qed

lemma index_found_lookup:
  assumes "wf_table tbl" and "indexOf (map unique_subhash (partitionRows tbl p)) s \<noteq> - 1"
  shows "lookup tbl (p, s)
           = Some (partitionRows tbl p ! nat (indexOf (map unique_subhash (partitionRows tbl p)) s))
       \<and> nat (indexOf (map unique_subhash (partitionRows tbl p)) s) < length (partitionRows tbl p)"
proof -
  define its where "its = partitionRows tbl p"
  define n where "n = nat (indexOf (map unique_subhash its) s)"
  from indexOf_found[OF assms(2)]
  have n: "n < length its" "unique_subhash (its ! n) = s"
    by (auto simp: its_def n_def)
  then have "its ! n \<in> set its" by simp
  then have mem: "its ! n \<in> set tbl" "item_prefix (its ! n) = p"
    by (simp_all add: its_def set_partitionRows)
  then have "key (its ! n) = (p, s)" using n(2) by (simp add: key_def)
  then have "lookup tbl (p, s) = Some (its ! n)"
    using lookup_distinct[OF assms(1) mem(1)] by simp
  then show ?thesis using n(1) by (simp add: its_def n_def)
qed

subsection \<open>The resolver on a table\<close>

text \<open>
  On a table with one row per key, one round of the loop reads the row of the candidate:
  the loop stops at the first candidate length that no other content has claimed, and
  fails when there is none below the bound of the loop.
\<close>

lemma loop_unfold:
  assumes "wf_table tbl"
  shows "findUniqueSubhash_loop (map unique_subhash (partitionRows tbl p))
           (map full_hash (partitionRows tbl p)) p hash i =
         (if i + 1 < length hash then
            (case lookup tbl (p, take i hash) of
               None \<Rightarrow> Inr \<lparr>prefix = p, uniqueSubHash = take i hash, alreadyPresent = False\<rparr>
             | Some it \<Rightarrow>
                 if full_hash it = hash
                 then Inr \<lparr>prefix = p, uniqueSubHash = take i hash, alreadyPresent = True\<rparr>
                 else findUniqueSubhash_loop (map unique_subhash (partitionRows tbl p))
                        (map full_hash (partitionRows tbl p)) p hash (i + 1))
          else Inl (exhausted hash))"
proof (cases "i + 1 < length hash")
  case False
  then have "\<not> int i < int (length hash) - 1" by simp
  then show ?thesis using False
    by (subst findUniqueSubhash_loop.simps) (simp only: if_False)
next
  case True
  then have c: "int i < int (length hash) - 1" by simp
  define idx where "idx = indexOf (map unique_subhash (partitionRows tbl p)) (take i hash)"
  show ?thesis
  proof (cases "idx = - 1")
    case absent: True
    then have "lookup tbl (p, take i hash) = None"
      by (simp add: idx_def index_absent_lookup)
    then show ?thesis using True c absent
      by (subst findUniqueSubhash_loop.simps) (simp add: Let_def idx_def)
  next
    case found: False
    from index_found_lookup[OF assms, of p "take i hash"] found
    have l: "lookup tbl (p, take i hash) = Some (partitionRows tbl p ! nat idx)"
      and n: "nat idx < length (partitionRows tbl p)"
      by (simp_all add: idx_def)
    have "map full_hash (partitionRows tbl p) ! nat idx = full_hash (partitionRows tbl p ! nat idx)"
      using n by simp
    then show ?thesis using True c found l n
      by (subst findUniqueSubhash_loop.simps) (simp add: Let_def idx_def)
  qed
qed

lemma findUniqueSubhash_resolveFrom:
  "findUniqueSubhash this None h = resolveFrom (dynamoDb this) h MIN_STORED_ID_LENGTH"
  by (simp add: findUniqueSubhash_def query_def resolveFrom_def Let_def)

lemma findUniqueSubhash_fault:
  "findUniqueSubhash this (Some e) h = Inl e"
  by (simp add: findUniqueSubhash_def query_def)

lemma resolveFrom_unfold:
  assumes "wf_table tbl"
  shows "resolveFrom tbl h i =
         (if i + 1 < length h then
            (case claims tbl (take PREFIX_LENGTH h, take i h) of
               None \<Rightarrow>
                 Inr \<lparr>prefix = take PREFIX_LENGTH h, uniqueSubHash = take i h,
                      alreadyPresent = False\<rparr>
             | Some f \<Rightarrow>
                 if f = h
                 then Inr \<lparr>prefix = take PREFIX_LENGTH h, uniqueSubHash = take i h,
                           alreadyPresent = True\<rparr>
                 else resolveFrom tbl h (i + 1))
          else Inl (exhausted h))"
  unfolding resolveFrom_def claims_def
  by (subst loop_unfold[OF assms]) (simp split: option.splits)

lemma resolveFrom_cases:
  assumes wf: "wf_table tbl"
  shows "(resolveFrom tbl h i = Inl (exhausted h)
            \<and> (\<forall>j. i \<le> j \<and> j + 1 < length h \<longrightarrow> claimedByOther tbl h j))
       \<or> (\<exists>k. i \<le> k \<and> k + 1 < length h
              \<and> (\<forall>j. i \<le> j \<and> j < k \<longrightarrow> claimedByOther tbl h j)
              \<and> \<not> claimedByOther tbl h k
              \<and> resolveFrom tbl h i =
                  Inr \<lparr>prefix = take PREFIX_LENGTH h, uniqueSubHash = take k h,
                       alreadyPresent = (claims tbl (take PREFIX_LENGTH h, take k h) = Some h)\<rparr>)"
    (is "?exh i \<or> ?found i")
proof (induction "length h - i" arbitrary: i rule: less_induct)
  case less
  show ?case
  proof (cases "i + 1 < length h")
    case False
    then have "resolveFrom tbl h i = Inl (exhausted h)"
      by (subst resolveFrom_unfold[OF wf]) simp
    with False show ?thesis by auto
  next
    case True
    show ?thesis
    proof (cases "claimedByOther tbl h i")
      case False
      then have "resolveFrom tbl h i =
                  Inr \<lparr>prefix = take PREFIX_LENGTH h, uniqueSubHash = take i h,
                       alreadyPresent = (claims tbl (take PREFIX_LENGTH h, take i h) = Some h)\<rparr>"
        using True
        by (subst resolveFrom_unfold[OF wf]) (simp add: claimedByOther_def split: option.splits)
      with True False have "?found i" by (intro exI[of _ i]) auto
      then show ?thesis ..
    next
      case other: True
      then have step: "resolveFrom tbl h i = resolveFrom tbl h (i + 1)"
        using True
        by (subst resolveFrom_unfold[OF wf]) (simp add: claimedByOther_def split: option.splits)
      have "length h - (i + 1) < length h - i" using True by simp
      from less[OF this] have "?exh (i + 1) \<or> ?found (i + 1)" .
      then show ?thesis
      proof
        assume e: "?exh (i + 1)"
        have "\<forall>j. i \<le> j \<and> j + 1 < length h \<longrightarrow> claimedByOther tbl h j"
        proof (intro allI impI)
          fix j assume j: "i \<le> j \<and> j + 1 < length h"
          show "claimedByOther tbl h j"
          proof (cases "j = i")
            case True with other show ?thesis by simp
          next
            case False with j e show ?thesis by auto
          qed
        qed
        with e step show ?thesis by simp
      next
        assume "?found (i + 1)"
        then obtain k where k: "i + 1 \<le> k" "k + 1 < length h"
          "\<forall>j. i + 1 \<le> j \<and> j < k \<longrightarrow> claimedByOther tbl h j"
          "\<not> claimedByOther tbl h k"
          "resolveFrom tbl h (i + 1) =
                  Inr \<lparr>prefix = take PREFIX_LENGTH h, uniqueSubHash = take k h,
                       alreadyPresent = (claims tbl (take PREFIX_LENGTH h, take k h) = Some h)\<rparr>"
          by blast
        have "\<forall>j. i \<le> j \<and> j < k \<longrightarrow> claimedByOther tbl h j"
        proof (intro allI impI)
          fix j assume j: "i \<le> j \<and> j < k"
          show "claimedByOther tbl h j"
          proof (cases "j = i")
            case True with other show ?thesis by simp
          next
            case False with j k(3) show ?thesis by auto
          qed
        qed
        with k step have "?found i" by (intro exI[of _ k]) auto
        then show ?thesis ..
      qed
    qed
  qed
qed

lemma loop_result_shape:
  "findUniqueSubhash_loop subHashes fullHashes p h i = Inr r \<Longrightarrow>
     \<exists>k. i \<le> k \<and> k + 1 < length h \<and> uniqueSubHash r = take k h \<and> prefix r = p"
proof (induction "length h - i" arbitrary: i rule: less_induct)
  case less
  have c: "i + 1 < length h"
  proof (rule ccontr)
    assume "\<not> i + 1 < length h"
    then have "findUniqueSubhash_loop subHashes fullHashes p h i = Inl (exhausted h)"
      by (subst findUniqueSubhash_loop.simps) simp
    with less.prems show False by simp
  qed
  then have ci: "int i < int (length h) - 1" by simp
  define idx where "idx = indexOf subHashes (take i h)"
  consider (fresh) "idx = - 1"
    | (present) "idx \<noteq> - 1" "nat idx < length fullHashes \<and> fullHashes ! nat idx = h"
    | (collide) "idx \<noteq> - 1" "\<not> (nat idx < length fullHashes \<and> fullHashes ! nat idx = h)"
    by blast
  then show ?case
  proof cases
    case fresh
    then have "findUniqueSubhash_loop subHashes fullHashes p h i =
        Inr \<lparr>prefix = p, uniqueSubHash = take i h, alreadyPresent = False\<rparr>"
      using ci by (subst findUniqueSubhash_loop.simps) (simp add: Let_def idx_def)
    with less.prems have "uniqueSubHash r = take i h \<and> prefix r = p" by auto
    with c show ?thesis by (intro exI[of _ i]) simp
  next
    case present
    then have "findUniqueSubhash_loop subHashes fullHashes p h i =
        Inr \<lparr>prefix = p, uniqueSubHash = take i h, alreadyPresent = True\<rparr>"
      using ci by (subst findUniqueSubhash_loop.simps) (simp add: Let_def idx_def)
    with less.prems have "uniqueSubHash r = take i h \<and> prefix r = p" by auto
    with c show ?thesis by (intro exI[of _ i]) simp
  next
    case collide
    then have "findUniqueSubhash_loop subHashes fullHashes p h i =
        findUniqueSubhash_loop subHashes fullHashes p h (i + 1)"
      using ci by (subst findUniqueSubhash_loop.simps) (auto simp: Let_def idx_def)
    with less.prems have r: "findUniqueSubhash_loop subHashes fullHashes p h (i + 1) = Inr r"
      by simp
    have "length h - (i + 1) < length h - i" using c by simp
    from less.hyps[OF this r] obtain k where
      "i + 1 \<le> k \<and> k + 1 < length h \<and> uniqueSubHash r = take k h \<and> prefix r = p" by blast
    then show ?thesis by (intro exI[of _ k]) simp
  qed
qed

lemma resolveFrom_sound:
  assumes "wf_table tbl" and "resolveFrom tbl h i = Inr r"
  shows "\<exists>k. i \<le> k \<and> k + 1 < length h
              \<and> (\<forall>j. i \<le> j \<and> j < k \<longrightarrow> claimedByOther tbl h j)
              \<and> \<not> claimedByOther tbl h k
              \<and> r = \<lparr>prefix = take PREFIX_LENGTH h, uniqueSubHash = take k h,
                       alreadyPresent = (claims tbl (take PREFIX_LENGTH h, take k h) = Some h)\<rparr>"
  using resolveFrom_cases[OF assms(1), of h i] assms(2) by auto

lemma resolveFrom_Inl:
  assumes "wf_table tbl" and "resolveFrom tbl h i = Inl e"
  shows "e = exhausted h \<and> (\<forall>j. i \<le> j \<and> j + 1 < length h \<longrightarrow> claimedByOther tbl h j)"
  using resolveFrom_cases[OF assms(1), of h i] assms(2) by auto

lemma resolveFrom_exhausted:
  assumes "wf_table tbl" and "\<forall>j. i \<le> j \<and> j + 1 < length h \<longrightarrow> claimedByOther tbl h j"
  shows "resolveFrom tbl h i = Inl (exhausted h)"
  using resolveFrom_cases[OF assms(1), of h i] assms(2) by auto

lemma resolveFrom_complete:
  assumes wf: "wf_table tbl" and ik: "i \<le> k" and kl: "k + 1 < length h"
    and before: "\<forall>j. i \<le> j \<and> j < k \<longrightarrow> claimedByOther tbl h j"
    and free: "\<not> claimedByOther tbl h k"
  shows "resolveFrom tbl h i =
           Inr \<lparr>prefix = take PREFIX_LENGTH h, uniqueSubHash = take k h,
                alreadyPresent = (claims tbl (take PREFIX_LENGTH h, take k h) = Some h)\<rparr>"
proof -
  from resolveFrom_cases[OF wf, of h i] ik kl free
  obtain k' where k': "i \<le> k'" "k' + 1 < length h"
      "\<forall>j. i \<le> j \<and> j < k' \<longrightarrow> claimedByOther tbl h j"
      "\<not> claimedByOther tbl h k'"
      "resolveFrom tbl h i =
           Inr \<lparr>prefix = take PREFIX_LENGTH h, uniqueSubHash = take k' h,
                alreadyPresent = (claims tbl (take PREFIX_LENGTH h, take k' h) = Some h)\<rparr>"
    by blast
  have "\<not> k' < k" using before k'(1) k'(4) by blast
  moreover have "\<not> k < k'" using k'(3) ik free by blast
  ultimately have "k' = k" by simp
  with k'(5) show ?thesis by simp
qed

subsection \<open>Writes\<close>

text \<open>
  A store never removes a row and never changes the hash a short id stands for: the claims
  of the table only grow.
\<close>

lemma lookup_put:
  "lookup (it # filter (\<lambda>x. key x \<noteq> key it) tbl) k
     = (if k = key it then Some it else lookup tbl k)"
  by (induction tbl) (auto simp: lookup_def)

lemma wf_put:
  "wf_table tbl \<Longrightarrow> wf_table (it # filter (\<lambda>x. key x \<noteq> key it) tbl)"
  by (auto simp: wf_table_def distinct_map_filter)

lemma claims_put:
  "claims (it # filter (\<lambda>x. key x \<noteq> key it) tbl) = (claims tbl)(key it \<mapsto> full_hash it)"
  by (rule ext) (simp add: claims_def lookup_put)

lemma claimedByOther_mono:
  assumes "claims t \<subseteq>\<^sub>m claims t'" and "claimedByOther t h j"
  shows "claimedByOther t' h j"
proof -
  from assms(2) obtain f where f: "claims t (take PREFIX_LENGTH h, take j h) = Some f" "f \<noteq> h"
    by (auto simp: claimedByOther_def split: option.splits)
  then have "claims t' (take PREFIX_LENGTH h, take j h) = Some f"
    using assms(1) by (auto simp: map_le_def dom_def)
  with f(2) show ?thesis by (simp add: claimedByOther_def)
qed

lemma storeItem_table:
  "dynamoDb (snd (storeItem anonymizeIp this pf sf now obj req)) =
     (case pf of
        Some e \<Rightarrow> dynamoDb this
      | None \<Rightarrow>
          \<lparr>item_prefix = so_prefix obj, unique_subhash = so_uniqueSubHash obj,
           full_hash = fullHash obj, clicks = 0,
           creation_ip = creationIp anonymizeIp req,
           creation_date = Some (setSeconds0 now), named_metadata = None\<rparr>
          # filter (\<lambda>x. key x \<noteq> (so_prefix obj, so_uniqueSubHash obj)) (dynamoDb this))"
  by (simp add: storeItem_def putItem_def s3_put_def Let_def key_def split: option.splits)

lemma storeItem_Inr:
  "fst (storeItem anonymizeIp this pf sf now obj req) = Inr stored \<Longrightarrow> pf = None \<and> sf = None"
  by (auto simp: storeItem_def putItem_def s3_put_def Let_def split: option.splits)

lemma map_le_claim:
  "m k = None \<or> m k = Some v \<Longrightarrow> m \<subseteq>\<^sub>m m(k \<mapsto> v)"
  by (auto simp: map_le_def)

lemma take_prefix_candidate:
  "MIN_STORED_ID_LENGTH \<le> k \<Longrightarrow> take PREFIX_LENGTH (take k h) = take PREFIX_LENGTH h"
  by (simp add: PREFIX_LENGTH_def MIN_STORED_ID_LENGTH_def min_def)

lemma store_effect:
  assumes wf: "wf_table (dynamoDb this)"
  shows "wf_table (dynamoDb (snd (store anonymizeIp rewrite this rq)))
       \<and> claims (dynamoDb this) \<subseteq>\<^sub>m claims (dynamoDb (snd (store anonymizeIp rewrite this rq)))
       \<and> (\<forall>r. fst (store anonymizeIp rewrite this rq) = Inr r \<longrightarrow>
            (\<exists>k. MIN_STORED_ID_LENGTH \<le> k \<and> k + 1 < length (req_hash rq)
               \<and> prefix r = take PREFIX_LENGTH (req_hash rq)
               \<and> uniqueSubHash r = take k (req_hash rq)
               \<and> (\<forall>j. MIN_STORED_ID_LENGTH \<le> j \<and> j < k
                      \<longrightarrow> claimedByOther (dynamoDb this) (req_hash rq) j)
               \<and> claims (dynamoDb (snd (store anonymizeIp rewrite this rq)))
                    (take PREFIX_LENGTH (req_hash rq), take k (req_hash rq))
                  = Some (req_hash rq)))"
    (is "?P (store anonymizeIp rewrite this rq)")
proof -
  define h where "h = req_hash rq"
  define tbl where "tbl = dynamoDb this"
  have unchanged: "?P (Inl e, this)" for e
    using wf by simp
  show ?thesis
  proof (cases "findUniqueSubhash this (req_queryFault rq) (req_hash rq)")
    case (Inl e)
    then have "store anonymizeIp rewrite this rq = (Inl e, this)"
      by (simp add: store_def)
    with unchanged show ?thesis by simp
  next
    case (Inr r)
    then have qf: "req_queryFault rq = None"
      by (cases "req_queryFault rq") (simp_all add: findUniqueSubhash_fault)
    with Inr have "resolveFrom tbl h MIN_STORED_ID_LENGTH = Inr r"
      by (simp add: findUniqueSubhash_resolveFrom tbl_def h_def)
    from resolveFrom_sound[OF _ this] wf obtain k where
      k: "MIN_STORED_ID_LENGTH \<le> k" "k + 1 < length h"
         "\<forall>j. MIN_STORED_ID_LENGTH \<le> j \<and> j < k \<longrightarrow> claimedByOther tbl h j"
         "\<not> claimedByOther tbl h k"
         "r = \<lparr>prefix = take PREFIX_LENGTH h, uniqueSubHash = take k h,
               alreadyPresent = (claims tbl (take PREFIX_LENGTH h, take k h) = Some h)\<rparr>"
      by (auto simp: tbl_def)
    define k0 where "k0 = (take PREFIX_LENGTH h, take k h)"
    have c0: "claims tbl k0 = None \<or> claims tbl k0 = Some h"
      using k(4) by (auto simp: claimedByOther_def k0_def split: option.splits)
    have r: "prefix r = take PREFIX_LENGTH h" "uniqueSubHash r = take k h"
      "alreadyPresent r = (claims tbl k0 = Some h)"
      using k(5) by (simp_all add: k0_def)
    show ?thesis
    proof (cases "alreadyPresent r \<and> \<not> rewrite")
      case True
      then have "store anonymizeIp rewrite this rq = (Inr r, this)"
        using Inr by (simp add: store_def)
      moreover have "claims tbl k0 = Some h" using True r(3) by simp
      ultimately show ?thesis
        using wf k(1,2,3) r(1,2)
        by (auto simp: h_def tbl_def k0_def intro!: exI[of _ k])
    next
      case False
      define obj where "obj = \<lparr>so_prefix = prefix r, so_uniqueSubHash = uniqueSubHash r,
                     fullHash = req_hash rq, config = req_content rq\<rparr>"
      define out where "out = storeItem anonymizeIp this (req_putFault rq) (req_s3Fault rq)
                                (req_time rq) obj (req_sender rq)"
      have st: "store anonymizeIp rewrite this rq =
                  (case fst out of Inl e \<Rightarrow> Inl e | Inr stored \<Rightarrow> Inr r, snd out)"
        using Inr False
        by (cases out) (auto simp: store_def out_def obj_def split: sum.splits)
      have key_obj: "(so_prefix obj, so_uniqueSubHash obj) = k0"
        by (simp add: obj_def r k0_def)
      show ?thesis
      proof (cases "req_putFault rq")
        case (Some e)
        then have t: "dynamoDb (snd out) = tbl"
          by (simp add: out_def storeItem_table tbl_def)
        have "fst out \<noteq> Inr stored" for stored
          using storeItem_Inr[of anonymizeIp this "req_putFault rq" "req_s3Fault rq"
                  "req_time rq" obj "req_sender rq" stored] Some
          by (auto simp: out_def)
        then have "fst (store anonymizeIp rewrite this rq) \<noteq> Inr r'" for r'
          by (cases "fst out") (auto simp: st)
        then show ?thesis using wf t by (simp add: st tbl_def)
      next
        case None
        define row where "row = \<lparr>item_prefix = so_prefix obj, unique_subhash = so_uniqueSubHash obj,
           full_hash = fullHash obj, clicks = 0,
           creation_ip = creationIp anonymizeIp (req_sender rq),
           creation_date = Some (setSeconds0 (req_time rq)), named_metadata = None\<rparr>"
        have kr: "key row = k0" "full_hash row = h"
          using key_obj by (simp_all add: row_def key_def obj_def h_def)
        have t: "dynamoDb (snd out) = row # filter (\<lambda>x. key x \<noteq> key row) tbl"
          using None key_obj
          by (simp add: out_def storeItem_table tbl_def row_def key_def)
        have wf1: "wf_table (dynamoDb (snd out))"
          unfolding t using wf by (intro wf_put) (simp add: tbl_def)
        have cl: "claims (dynamoDb (snd out)) = (claims tbl)(k0 \<mapsto> h)"
          using claims_put[of row tbl] by (simp add: t kr)
        have le: "claims tbl \<subseteq>\<^sub>m claims (dynamoDb (snd out))"
          unfolding cl by (rule map_le_claim) (rule c0)
        have "fst (store anonymizeIp rewrite this rq) = Inr r' \<Longrightarrow> r' = r" for r'
          by (cases "fst out") (simp_all add: st)
        then show ?thesis
          using wf1 le k(1,2,3) r(1,2) cl
          by (auto simp: st h_def tbl_def k0_def intro!: exI[of _ k])
      qed
    qed
  qed
qed

lemma store_all_Cons:
  "store_all anonymizeIp rewrite this (rq # rqs) =
     (fst (store anonymizeIp rewrite this rq)
        # fst (store_all anonymizeIp rewrite (snd (store anonymizeIp rewrite this rq)) rqs),
      snd (store_all anonymizeIp rewrite (snd (store anonymizeIp rewrite this rq)) rqs))"
  by (simp add: case_prod_beta)

lemma store_all_effect:
  assumes "wf_table (dynamoDb this)"
  shows "wf_table (dynamoDb (snd (store_all anonymizeIp rewrite this rqs)))
       \<and> claims (dynamoDb this) \<subseteq>\<^sub>m claims (dynamoDb (snd (store_all anonymizeIp rewrite this rqs)))
       \<and> (\<forall>i r. i < length rqs \<and> fst (store_all anonymizeIp rewrite this rqs) ! i = Inr r \<longrightarrow>
            claims (dynamoDb (snd (store_all anonymizeIp rewrite this rqs)))
              (take PREFIX_LENGTH (uniqueSubHash r), uniqueSubHash r) = Some (req_hash (rqs ! i)))"
  using assms
proof (induction rqs arbitrary: this)
  case Nil
  then show ?case by simp
next
  case (Cons rq rqs)
  define this1 where "this1 = snd (store anonymizeIp rewrite this rq)"
  define this2 where "this2 = snd (store_all anonymizeIp rewrite this1 rqs)"
  define rs where "rs = fst (store_all anonymizeIp rewrite this1 rqs)"
  have all: "store_all anonymizeIp rewrite this (rq # rqs)
               = (fst (store anonymizeIp rewrite this rq) # rs, this2)"
    by (simp only: store_all_Cons this1_def this2_def rs_def)
  from store_effect[OF Cons.prems, of anonymizeIp rewrite rq]
  have wf1: "wf_table (dynamoDb this1)"
    and le1: "claims (dynamoDb this) \<subseteq>\<^sub>m claims (dynamoDb this1)"
    and res1: "\<And>r. fst (store anonymizeIp rewrite this rq) = Inr r \<Longrightarrow>
            (\<exists>k. MIN_STORED_ID_LENGTH \<le> k
               \<and> uniqueSubHash r = take k (req_hash rq)
               \<and> claims (dynamoDb this1)
                    (take PREFIX_LENGTH (req_hash rq), take k (req_hash rq))
                  = Some (req_hash rq))"
    unfolding this1_def by blast+
  from Cons.IH[OF wf1]
  have wf2: "wf_table (dynamoDb this2)"
    and le2: "claims (dynamoDb this1) \<subseteq>\<^sub>m claims (dynamoDb this2)"
    and res2: "\<And>i r. i < length rqs \<Longrightarrow> rs ! i = Inr r \<Longrightarrow>
            claims (dynamoDb this2) (take PREFIX_LENGTH (uniqueSubHash r), uniqueSubHash r)
              = Some (req_hash (rqs ! i))"
    unfolding this2_def rs_def by blast+
  have le: "claims (dynamoDb this) \<subseteq>\<^sub>m claims (dynamoDb this2)"
    using le1 le2 by (rule map_le_trans)
  have res: "claims (dynamoDb this2) (take PREFIX_LENGTH (uniqueSubHash r), uniqueSubHash r)
              = Some (req_hash ((rq # rqs) ! i))"
    if i: "i < length (rq # rqs)" and r: "(fst (store anonymizeIp rewrite this rq) # rs) ! i = Inr r"
    for i r
  proof (cases i)
    case 0
    with r have "fst (store anonymizeIp rewrite this rq) = Inr r" by simp
    from res1[OF this] obtain k where k: "MIN_STORED_ID_LENGTH \<le> k"
      "uniqueSubHash r = take k (req_hash rq)"
      "claims (dynamoDb this1) (take PREFIX_LENGTH (req_hash rq), take k (req_hash rq))
         = Some (req_hash rq)"
      by blast
    from k(3) le2 have "claims (dynamoDb this2)
        (take PREFIX_LENGTH (req_hash rq), take k (req_hash rq)) = Some (req_hash rq)"
      by (auto simp: map_le_def dom_def)
    with k(1,2) 0 show ?thesis by (simp add: take_prefix_candidate del: take_take)
  next
    case (Suc i')
    with i r res2[of i' r] show ?thesis by simp
  qed
  show ?case
    unfolding all using wf2 le res by simp
qed




subsection \<open>Reading a link\<close>

lemma findUniqueSubhash_prefix:
  assumes "findUniqueSubhash this queryFault h = Inr r"
  shows "prefix r = take PREFIX_LENGTH (uniqueSubHash r)"
proof -
  from assms have "\<exists>items :: item list.
    findUniqueSubhash_loop (map unique_subhash items) (map full_hash items)
       (take PREFIX_LENGTH h) h MIN_STORED_ID_LENGTH = Inr r"
    by (auto simp: findUniqueSubhash_def Let_def split: sum.splits)
  then obtain k where
    k: "MIN_STORED_ID_LENGTH \<le> k" "uniqueSubHash r = take k h" "prefix r = take PREFIX_LENGTH h"
    using loop_result_shape by blast
  then show ?thesis by (simp add: take_prefix_candidate del: take_take)
qed



lemma incrementViewCount_missing_row:
  "lookup (dynamoDb this) (getKeyStruct sid) = None \<Longrightarrow>
     updateItem None (dynamoDb this) (getKeyStruct sid) = Inl (ServiceException ''ValidationException'')
     \<and> incrementViewCount this None sid = (Inr (), this)"
  by (simp add: incrementViewCount_def updateItem_def)

subsection \<open>The address written with a link\<close>

lemma creationIp_forwarded_single:
  assumes "get req ''X-Forwarded-For'' = Some h" and "h \<noteq> []"
    and "str_indexOf h CHR '','' \<le> 0"
  shows "creationIp anonymizeIp req = h"
  using assms by (simp add: creationIp_def Let_def)

lemma creationIp_not_forwarded:
  assumes "get req ''X-Forwarded-For'' = None"
    and "str_indexOf (anonymizeIp (ip req)) CHR '','' \<le> 0"
  shows "creationIp anonymizeIp req = anonymizeIp (ip req)"
  using assms by (simp add: creationIp_def Let_def)

subsection \<open>The scenario, evaluated\<close>

lemmas scenario_defs =
  scenario_store_def scenario_request_def scenario_first_def scenario_second_def

lemmas eval_defs =
  store_def findUniqueSubhash_def query_def partitionRows_def PREFIX_LENGTH_def
  MIN_STORED_ID_LENGTH_def findUniqueSubhash_loop.simps indexOf_def sortedIndex_def
  sortedIndex_loop.simps storeItem_def putItem_def s3_put_def key_def creationIp_def
  setSeconds0_def Let_def

lemma scenario_stored_eq:
  "scenario_stored =
     \<lparr>storagePrefix = ''state'',
      dynamoDb = [\<lparr>item_prefix = ''abcdef'', unique_subhash = ''abcdef123'',
                   full_hash = ''abcdef1234567890'', clicks = 0, creation_ip = ''0.0.0.0'',
                   creation_date = Some 1699999980000, named_metadata = None\<rparr>],
      s3 = [(''state'', ''abcdef1234567890'') \<mapsto> ''first content'']\<rparr>"
  by (simp add: scenario_stored_def scenario_defs eval_defs)

lemma scenario_empty_resolve:
  "findUniqueSubhash scenario_store None ''abcdef1234567890'' =
     Inr \<lparr>prefix = ''abcdef'', uniqueSubHash = ''abcdef123'', alreadyPresent = False\<rparr>"
  by (simp add: scenario_defs eval_defs)

lemma scenario_stored_resolve_same:
  "findUniqueSubhash scenario_stored None ''abcdef1234567890'' =
     Inr \<lparr>prefix = ''abcdef'', uniqueSubHash = ''abcdef123'', alreadyPresent = True\<rparr>"
  by (simp add: scenario_stored_eq eval_defs)

lemma scenario_stored_resolve_other:
  "findUniqueSubhash scenario_stored None ''abcdefZZZZZZZZZZ'' =
     Inr \<lparr>prefix = ''abcdef'', uniqueSubHash = ''abcdefZZZ'', alreadyPresent = False\<rparr>"
  by (simp add: scenario_stored_eq eval_defs)

lemma scenario_stored_resolve_colliding:
  "findUniqueSubhash scenario_stored None ''abcdef123ZZZZZZZ'' =
     Inr \<lparr>prefix = ''abcdef'', uniqueSubHash = ''abcdef123Z'', alreadyPresent = False\<rparr>"
  by (simp add: scenario_stored_eq eval_defs)

lemma scenario_stored_resolve_eleven:
  "findUniqueSubhash scenario_stored None ''abcdef12345'' = Inl (exhausted ''abcdef12345'')"
  by (simp add: scenario_stored_eq eval_defs)

lemma scenario_store_first:
  "fst (store (\<lambda>a. ''0.0.0.0'') False scenario_store scenario_first) =
     Inr \<lparr>prefix = ''abcdef'', uniqueSubHash = ''abcdef123'', alreadyPresent = False\<rparr>"
  by (simp add: scenario_defs eval_defs)

lemma scenario_store_both:
  "fst (store_all (\<lambda>a. ''0.0.0.0'') False scenario_store [scenario_first, scenario_second]) =
     [Inr \<lparr>prefix = ''abcdef'', uniqueSubHash = ''abcdef123'', alreadyPresent = False\<rparr>,
      Inr \<lparr>prefix = ''abcdef'', uniqueSubHash = ''abcdef123Z'', alreadyPresent = False\<rparr>]"
  by (simp add: scenario_defs eval_defs)

lemma scenario_stored_wf: "wf_table (dynamoDb scenario_stored)"
  by (simp add: scenario_stored_eq wf_table_def)

lemma scenario_stored_is_first_store:
  "snd (store (\<lambda>a. ''0.0.0.0'') False scenario_store scenario_first) = scenario_stored"
  by (simp add: scenario_stored_def scenario_defs eval_defs)

section \<open>The claims\<close>

text \<open>
  C1. Short ids are unique: in a run of stores, each one resolving its id against the
  table the stores before it left, any two stores that succeed for contents with
  different full hashes are given different short ids. The table is any table with one
  row per key, the stores may fail in any way, and a store of a content already present
  may or may not write again.
\<close>

theorem store_short_ids_distinct:
  assumes "wf_table (dynamoDb this)"
    and "i < length rqs" and "j < length rqs"
    and "fst (store_all anonymizeIp rewrite this rqs) ! i = Inr ri"
    and "fst (store_all anonymizeIp rewrite this rqs) ! j = Inr rj"
    and "req_hash (rqs ! i) \<noteq> req_hash (rqs ! j)"
  shows "uniqueSubHash ri \<noteq> uniqueSubHash rj
       \<and> claims (dynamoDb (snd (store_all anonymizeIp rewrite this rqs)))
            (take PREFIX_LENGTH (uniqueSubHash ri), uniqueSubHash ri) = Some (req_hash (rqs ! i))
       \<and> claims (dynamoDb (snd (store_all anonymizeIp rewrite this rqs)))
            (take PREFIX_LENGTH (uniqueSubHash rj), uniqueSubHash rj) = Some (req_hash (rqs ! j))"
proof -
  let ?T = "dynamoDb (snd (store_all anonymizeIp rewrite this rqs))"
  from store_all_effect[OF assms(1), of anonymizeIp rewrite rqs] assms(2-5)
  have ci: "claims ?T (take PREFIX_LENGTH (uniqueSubHash ri), uniqueSubHash ri)
              = Some (req_hash (rqs ! i))"
    and cj: "claims ?T (take PREFIX_LENGTH (uniqueSubHash rj), uniqueSubHash rj)
              = Some (req_hash (rqs ! j))"
    by blast+
  have "uniqueSubHash ri \<noteq> uniqueSubHash rj"
  proof
    assume "uniqueSubHash ri = uniqueSubHash rj"
    with ci cj assms(6) show False by simp
  qed
  with ci cj show ?thesis by blast
qed

theorem store_short_ids_distinct_witness:
  "wf_table (dynamoDb scenario_store)
   \<and> fst (store_all (\<lambda>a. ''0.0.0.0'') False scenario_store [scenario_first, scenario_second]) ! 0
       = Inr \<lparr>prefix = ''abcdef'', uniqueSubHash = ''abcdef123'', alreadyPresent = False\<rparr>
   \<and> fst (store_all (\<lambda>a. ''0.0.0.0'') False scenario_store [scenario_first, scenario_second]) ! 1
       = Inr \<lparr>prefix = ''abcdef'', uniqueSubHash = ''abcdef123Z'', alreadyPresent = False\<rparr>
   \<and> req_hash ([scenario_first, scenario_second] ! 0) \<noteq> req_hash ([scenario_first, scenario_second] ! 1)
   \<and> uniqueSubHash \<lparr>prefix = ''abcdef'', uniqueSubHash = ''abcdef123'', alreadyPresent = False\<rparr>
       \<noteq> uniqueSubHash \<lparr>prefix = ''abcdef'', uniqueSubHash = ''abcdef123Z'', alreadyPresent = False\<rparr>"
proof -
  have wf: "wf_table (dynamoDb scenario_store)"
    by (simp add: scenario_store_def wf_table_def)
  have i: "0 < length [scenario_first, scenario_second]"
    and j: "1 < length [scenario_first, scenario_second]" by simp_all
  have ri: "fst (store_all (\<lambda>a. ''0.0.0.0'') False scenario_store [scenario_first, scenario_second]) ! 0
       = Inr \<lparr>prefix = ''abcdef'', uniqueSubHash = ''abcdef123'', alreadyPresent = False\<rparr>"
    unfolding scenario_store_both by simp
  have rj: "fst (store_all (\<lambda>a. ''0.0.0.0'') False scenario_store [scenario_first, scenario_second]) ! 1
       = Inr \<lparr>prefix = ''abcdef'', uniqueSubHash = ''abcdef123Z'', alreadyPresent = False\<rparr>"
    unfolding scenario_store_both by simp
  have ne: "req_hash ([scenario_first, scenario_second] ! 0)
              \<noteq> req_hash ([scenario_first, scenario_second] ! 1)"
    by (simp add: scenario_first_def scenario_second_def)
  from store_short_ids_distinct[OF wf i j ri rj ne] wf ri rj ne show ?thesis by blast
qed

text \<open>
  C2. Deduplication is idempotent: once a store of a hash has succeeded, resolving the
  same hash again answers \<^verbatim>\<open>alreadyPresent = true\<close> with the short id and the prefix of
  that store, in every state that further stores of any contents lead to.
\<close>

theorem findUniqueSubhash_idempotent:
  assumes wf: "wf_table (dynamoDb this)"
    and first: "fst (store anonymizeIp rewrite this rq) = Inr r"
  shows "findUniqueSubhash
           (snd (store_all anonymizeIp rewrite (snd (store anonymizeIp rewrite this rq)) rqs))
           None (req_hash rq)
         = Inr \<lparr>prefix = prefix r, uniqueSubHash = uniqueSubHash r, alreadyPresent = True\<rparr>"
proof -
  define h where "h = req_hash rq"
  define this1 where "this1 = snd (store anonymizeIp rewrite this rq)"
  define this2 where "this2 = snd (store_all anonymizeIp rewrite this1 rqs)"
  from store_effect[OF wf, of anonymizeIp rewrite rq] first
  obtain k where wf1: "wf_table (dynamoDb this1)"
    and le1: "claims (dynamoDb this) \<subseteq>\<^sub>m claims (dynamoDb this1)"
    and k: "MIN_STORED_ID_LENGTH \<le> k" "k + 1 < length h"
       "prefix r = take PREFIX_LENGTH h" "uniqueSubHash r = take k h"
       "\<forall>j. MIN_STORED_ID_LENGTH \<le> j \<and> j < k \<longrightarrow> claimedByOther (dynamoDb this) h j"
       "claims (dynamoDb this1) (take PREFIX_LENGTH h, take k h) = Some h"
    unfolding this1_def h_def by blast
  from store_all_effect[OF wf1, of anonymizeIp rewrite rqs]
  have wf2: "wf_table (dynamoDb this2)"
    and le2: "claims (dynamoDb this1) \<subseteq>\<^sub>m claims (dynamoDb this2)"
    unfolding this2_def by blast+
  have le: "claims (dynamoDb this) \<subseteq>\<^sub>m claims (dynamoDb this2)"
    using le1 le2 by (rule map_le_trans)
  have before: "\<forall>j. MIN_STORED_ID_LENGTH \<le> j \<and> j < k \<longrightarrow> claimedByOther (dynamoDb this2) h j"
    using k(5) claimedByOther_mono[OF le] by blast
  have here: "claims (dynamoDb this2) (take PREFIX_LENGTH h, take k h) = Some h"
    using k(6) le2 by (auto simp: map_le_def dom_def)
  then have free: "\<not> claimedByOther (dynamoDb this2) h k"
    by (simp add: claimedByOther_def)
  from resolveFrom_complete[OF wf2 k(1) k(2) before free] here k(3,4)
  show ?thesis
    by (simp add: findUniqueSubhash_resolveFrom this2_def this1_def h_def)
qed

theorem findUniqueSubhash_idempotent_witness:
  "wf_table (dynamoDb scenario_store)
   \<and> fst (store (\<lambda>a. ''0.0.0.0'') False scenario_store scenario_first)
       = Inr \<lparr>prefix = ''abcdef'', uniqueSubHash = ''abcdef123'', alreadyPresent = False\<rparr>
   \<and> findUniqueSubhash
        (snd (store_all (\<lambda>a. ''0.0.0.0'') False
                (snd (store (\<lambda>a. ''0.0.0.0'') False scenario_store scenario_first))
                [scenario_second]))
        None ''abcdef1234567890''
       = Inr \<lparr>prefix = ''abcdef'', uniqueSubHash = ''abcdef123'', alreadyPresent = True\<rparr>"
proof -
  have wf: "wf_table (dynamoDb scenario_store)"
    by (simp add: scenario_store_def wf_table_def)
  have h: "req_hash scenario_first = ''abcdef1234567890''"
    by (simp add: scenario_first_def)
  from findUniqueSubhash_idempotent[OF wf scenario_store_first, of "[scenario_second]"]
    wf scenario_store_first h
  show ?thesis by simp
qed




text \<open>
  C4. Length bounds: whatever the table holds and however the query answers, a short id
  that \<^verbatim>\<open>findUniqueSubhash\<close> returns has at least \<^verbatim>\<open>MIN_STORED_ID_LENGTH\<close> characters, is
  shorter than the full hash, and is a prefix of the full hash.
\<close>

theorem findUniqueSubhash_length_bounds:
  assumes "findUniqueSubhash this queryFault h = Inr r"
  shows "MIN_STORED_ID_LENGTH \<le> length (uniqueSubHash r)
       \<and> length (uniqueSubHash r) < length h
       \<and> uniqueSubHash r = take (length (uniqueSubHash r)) h"
proof -
  from assms have "\<exists>items :: item list.
    findUniqueSubhash_loop (map unique_subhash items) (map full_hash items)
       (take PREFIX_LENGTH h) h MIN_STORED_ID_LENGTH = Inr r"
    by (auto simp: findUniqueSubhash_def Let_def split: sum.splits)
  then obtain k where
    k: "MIN_STORED_ID_LENGTH \<le> k" "k + 1 < length h" "uniqueSubHash r = take k h"
    using loop_result_shape by blast
  then have "length (uniqueSubHash r) = k" by simp
  with k show ?thesis by simp
qed

theorem findUniqueSubhash_length_bounds_witness:
  "findUniqueSubhash scenario_stored None ''abcdef123ZZZZZZZ'' =
     Inr \<lparr>prefix = ''abcdef'', uniqueSubHash = ''abcdef123Z'', alreadyPresent = False\<rparr>
   \<and> MIN_STORED_ID_LENGTH \<le> length ''abcdef123Z''
   \<and> length ''abcdef123Z'' < length ''abcdef123ZZZZZZZ''
   \<and> ''abcdef123Z'' = take (length ''abcdef123Z'') ''abcdef123ZZZZZZZ''"
  using findUniqueSubhash_length_bounds[OF scenario_stored_resolve_colliding]
    scenario_stored_resolve_colliding
  by simp

text \<open>
  C5, as amended. Candidate range and exhaustion: the candidate lengths are those \<open>i\<close> with
  \<^verbatim>\<open>MIN_STORED_ID_LENGTH <= i < len(fullHash) - 1\<close>, tried in increasing order: the call
  fails, and only with the exhaustion error, exactly when every one of them is claimed by
  a row holding a different full hash, and otherwise returns the candidate of the least
  length that is not.
\<close>

theorem findUniqueSubhash_exhaustion:
  assumes "wf_table (dynamoDb this)"
  shows "(findUniqueSubhash this None h = Inl (exhausted h)
            \<longleftrightarrow> (\<forall>i. MIN_STORED_ID_LENGTH \<le> i \<and> i + 1 < length h
                      \<longrightarrow> claimedByOther (dynamoDb this) h i))
       \<and> (\<forall>e. findUniqueSubhash this None h = Inl e \<longrightarrow> e = exhausted h)
       \<and> (\<forall>r. findUniqueSubhash this None h = Inr r \<longrightarrow>
            (\<exists>k. MIN_STORED_ID_LENGTH \<le> k \<and> k + 1 < length h
                \<and> uniqueSubHash r = take k h
                \<and> \<not> claimedByOther (dynamoDb this) h k
                \<and> (\<forall>j. MIN_STORED_ID_LENGTH \<le> j \<and> j < k
                       \<longrightarrow> claimedByOther (dynamoDb this) h j)))"
proof -
  let ?all = "\<forall>i. MIN_STORED_ID_LENGTH \<le> i \<and> i + 1 < length h
                \<longrightarrow> claimedByOther (dynamoDb this) h i"
  have eq: "findUniqueSubhash this None h = resolveFrom (dynamoDb this) h MIN_STORED_ID_LENGTH"
    by (rule findUniqueSubhash_resolveFrom)
  have fails: "e = exhausted h \<and> ?all" if "findUniqueSubhash this None h = Inl e" for e
    using resolveFrom_Inl[OF assms, of h MIN_STORED_ID_LENGTH e] that unfolding eq by simp
  have "findUniqueSubhash this None h = Inl (exhausted h) \<longleftrightarrow> ?all"
  proof
    assume "findUniqueSubhash this None h = Inl (exhausted h)"
    from fails[OF this] show ?all by simp
  next
    assume ?all
    from resolveFrom_exhausted[OF assms this]
    show "findUniqueSubhash this None h = Inl (exhausted h)"
      unfolding eq .
  qed
  moreover have "\<forall>e. findUniqueSubhash this None h = Inl e \<longrightarrow> e = exhausted h"
    using fails by blast
  moreover have "\<forall>r. findUniqueSubhash this None h = Inr r \<longrightarrow>
            (\<exists>k. MIN_STORED_ID_LENGTH \<le> k \<and> k + 1 < length h
                \<and> uniqueSubHash r = take k h
                \<and> \<not> claimedByOther (dynamoDb this) h k
                \<and> (\<forall>j. MIN_STORED_ID_LENGTH \<le> j \<and> j < k
                       \<longrightarrow> claimedByOther (dynamoDb this) h j))"
  proof (intro allI impI)
    fix r assume "findUniqueSubhash this None h = Inr r"
    then have "resolveFrom (dynamoDb this) h MIN_STORED_ID_LENGTH = Inr r"
      unfolding eq .
    from resolveFrom_sound[OF assms this] obtain k where
      "MIN_STORED_ID_LENGTH \<le> k" "k + 1 < length h"
      "\<forall>j. MIN_STORED_ID_LENGTH \<le> j \<and> j < k \<longrightarrow> claimedByOther (dynamoDb this) h j"
      "\<not> claimedByOther (dynamoDb this) h k"
      "uniqueSubHash r = take k h"
      by auto
    then show "\<exists>k. MIN_STORED_ID_LENGTH \<le> k \<and> k + 1 < length h
                \<and> uniqueSubHash r = take k h
                \<and> \<not> claimedByOther (dynamoDb this) h k
                \<and> (\<forall>j. MIN_STORED_ID_LENGTH \<le> j \<and> j < k
                       \<longrightarrow> claimedByOther (dynamoDb this) h j)"
      by blast
  qed
  ultimately show ?thesis by blast
qed

theorem findUniqueSubhash_exhaustion_witness:
  "wf_table (dynamoDb scenario_stored)
   \<and> findUniqueSubhash scenario_stored None ''abcdef12345'' = Inl (exhausted ''abcdef12345'')
   \<and> MIN_STORED_ID_LENGTH \<le> 9 \<and> 9 + 1 < length ''abcdef12345''
   \<and> claimedByOther (dynamoDb scenario_stored) ''abcdef12345'' 9
   \<and> findUniqueSubhash scenario_stored None ''abcdef123ZZZZZZZ'' =
        Inr \<lparr>prefix = ''abcdef'', uniqueSubHash = ''abcdef123Z'', alreadyPresent = False\<rparr>
   \<and> claimedByOther (dynamoDb scenario_stored) ''abcdef123ZZZZZZZ'' 9
   \<and> \<not> claimedByOther (dynamoDb scenario_stored) ''abcdef123ZZZZZZZ'' 10"
proof -
  have f: "findUniqueSubhash scenario_stored None ''abcdef12345'' = Inl (exhausted ''abcdef12345'')"
    by (rule scenario_stored_resolve_eleven)
  have b: "MIN_STORED_ID_LENGTH \<le> 9 \<and> 9 + 1 < length ''abcdef12345''"
    by (simp add: MIN_STORED_ID_LENGTH_def)
  from findUniqueSubhash_exhaustion[OF scenario_stored_wf, of "''abcdef12345''"] f
  have "\<forall>i. MIN_STORED_ID_LENGTH \<le> i \<and> i + 1 < length ''abcdef12345''
            \<longrightarrow> claimedByOther (dynamoDb scenario_stored) ''abcdef12345'' i"
    by blast
  with b have c9: "claimedByOther (dynamoDb scenario_stored) ''abcdef12345'' 9" by blast
  let ?h = "''abcdef123ZZZZZZZ''"
  let ?r = "\<lparr>prefix = ''abcdef'', uniqueSubHash = ''abcdef123Z'', alreadyPresent = False\<rparr>"
  have g: "findUniqueSubhash scenario_stored None ?h = Inr ?r"
    by (rule scenario_stored_resolve_colliding)
  from findUniqueSubhash_exhaustion[OF scenario_stored_wf, of ?h] g
  obtain k where k: "MIN_STORED_ID_LENGTH \<le> k" "k + 1 < length ?h"
      "uniqueSubHash ?r = take k ?h"
      "\<not> claimedByOther (dynamoDb scenario_stored) ?h k"
      "\<forall>j. MIN_STORED_ID_LENGTH \<le> j \<and> j < k \<longrightarrow> claimedByOther (dynamoDb scenario_stored) ?h j"
    by blast
  from k(3) have "length (uniqueSubHash ?r) = length (take k ?h)" by (rule arg_cong)
  with k(2) have k10: "k = 10" by simp
  from k(5) k10 have d9: "claimedByOther (dynamoDb scenario_stored) ?h 9"
    by (simp add: MIN_STORED_ID_LENGTH_def)
  from k(4) k10 have d10: "\<not> claimedByOther (dynamoDb scenario_stored) ?h 10" by simp
  from scenario_stored_wf f b c9 g d9 d10 show ?thesis by blast
qed

text \<open>
  C5, as stated, takes the candidate lengths up to \<^verbatim>\<open>len(fullHash) - 1\<close>. For a hash of
  eleven characters whose candidate of length 9 is claimed by another content, the
  candidate of length 10 is free, and yet the call fails.
\<close>

theorem exhaustion_range_counterexample:
  "findUniqueSubhash scenario_stored None ''abcdef12345'' = Inl (exhausted ''abcdef12345'')
   \<and> MIN_STORED_ID_LENGTH \<le> 10 \<and> 10 \<le> length ''abcdef12345'' - 1
   \<and> \<not> claimedByOther (dynamoDb scenario_stored) ''abcdef12345'' 10"
  by (simp add: scenario_stored_resolve_eleven)
     (simp add: scenario_stored_eq MIN_STORED_ID_LENGTH_def PREFIX_LENGTH_def claimedByOther_def
        claims_def lookup_def key_def)

text \<open>
  C6, as amended. The scenario with \<^verbatim>\<open>PREFIX_LENGTH = 6\<close> and \<^verbatim>\<open>MIN_STORED_ID_LENGTH = 9\<close>:
  on the empty partition \<^verbatim>\<open>"abcdef1234567890"\<close> resolves to the new id \<^verbatim>\<open>"abcdef123"\<close>; on
  the partition holding that row it resolves to the same id, already present;
  \<^verbatim>\<open>"abcdefZZZZZZZZZZ"\<close> does not collide at length 9 and resolves to the new id
  \<^verbatim>\<open>"abcdefZZZ"\<close>; a hash that shares the nine characters of the stored id,
  \<^verbatim>\<open>"abcdef123ZZZZZZZ"\<close>, collides at length 9 and resolves to \<^verbatim>\<open>"abcdef123Z"\<close>.
\<close>

theorem scenario_resolution:
  "PREFIX_LENGTH = 6 \<and> MIN_STORED_ID_LENGTH = 9
   \<and> findUniqueSubhash scenario_store None ''abcdef1234567890'' =
        Inr \<lparr>prefix = ''abcdef'', uniqueSubHash = ''abcdef123'', alreadyPresent = False\<rparr>
   \<and> findUniqueSubhash scenario_stored None ''abcdef1234567890'' =
        Inr \<lparr>prefix = ''abcdef'', uniqueSubHash = ''abcdef123'', alreadyPresent = True\<rparr>
   \<and> findUniqueSubhash scenario_stored None ''abcdefZZZZZZZZZZ'' =
        Inr \<lparr>prefix = ''abcdef'', uniqueSubHash = ''abcdefZZZ'', alreadyPresent = False\<rparr>
   \<and> findUniqueSubhash scenario_stored None ''abcdef123ZZZZZZZ'' =
        Inr \<lparr>prefix = ''abcdef'', uniqueSubHash = ''abcdef123Z'', alreadyPresent = False\<rparr>"
  using scenario_empty_resolve scenario_stored_resolve_same scenario_stored_resolve_other
    scenario_stored_resolve_colliding
  by (simp add: PREFIX_LENGTH_def MIN_STORED_ID_LENGTH_def)

text \<open>
  C6, as stated, has \<^verbatim>\<open>"abcdefZZZZZZZZZZ"\<close> collide at length 9 and receive an id of ten
  characters or more. Its candidate of length 9 is unclaimed and is the id returned.
\<close>

theorem scenario_other_hash_counterexample:
  "findUniqueSubhash scenario_stored None ''abcdefZZZZZZZZZZ'' =
     Inr \<lparr>prefix = ''abcdef'', uniqueSubHash = ''abcdefZZZ'', alreadyPresent = False\<rparr>
   \<and> length ''abcdefZZZ'' < 10
   \<and> claims (dynamoDb scenario_stored) (''abcdef'', ''abcdefZZZ'') = None"
  by (simp add: scenario_stored_resolve_other)
     (simp add: scenario_stored_eq claims_def lookup_def key_def)


text \<open>
  C8 says that the address written as \<^verbatim>\<open>creation_ip\<close> is anonymized for every request. For
  a request whose \<^verbatim>\<open>X-Forwarded-For\<close> header is a single address, the row holds the header
  as it came, whatever \<^verbatim>\<open>anonymizeIp\<close> computes.
\<close>

theorem storeItem_forwarded_address_verbatim:
  "map creation_ip
     (dynamoDb (snd (storeItem anonymizeIp scenario_store None None now obj
        \<lparr>get = (\<lambda>name. if name = ''X-Forwarded-For'' then Some ''203.0.113.77'' else None),
         ip = ''10.0.0.1''\<rparr>)))
   = [''203.0.113.77'']"
  by (simp add: storeItem_table scenario_store_def creationIp_def Let_def)

text \<open>
  C9. \<^verbatim>\<open>incrementViewCount\<close> never throws: for every id, every table and every outcome of
  the update (a fault of the service, a rejected update on a missing row, success) the
  call returns normally.
\<close>

theorem incrementViewCount_never_throws:
  "fst (incrementViewCount this updateFault sid) = Inr ()"
  by (simp add: incrementViewCount_def split: sum.splits)

text \<open>
  C10. A full hash of at most \<^verbatim>\<open>MIN_STORED_ID_LENGTH + 1\<close> characters is never given a short
  id: when the query answers, the loop body is not entered and the call throws the
  exhaustion error, whatever the table holds.
\<close>

theorem findUniqueSubhash_short_hash:
  assumes "length h \<le> MIN_STORED_ID_LENGTH + 1"
  shows "findUniqueSubhash this None h = Inl (exhausted h)
       \<and> (\<forall>queryFault r. findUniqueSubhash this queryFault h \<noteq> Inr r)"
proof -
  have "\<not> int MIN_STORED_ID_LENGTH < int (length h) - 1" using assms by simp
  then have stop: "findUniqueSubhash_loop subHashes fullHashes p h MIN_STORED_ID_LENGTH
               = Inl (exhausted h)" for subHashes fullHashes p
    by (subst findUniqueSubhash_loop.simps) (simp only: if_False)
  have "findUniqueSubhash this None h = Inl (exhausted h)"
    by (simp add: findUniqueSubhash_def query_def Let_def stop)
  moreover have "findUniqueSubhash this queryFault h \<noteq> Inr r" for queryFault r
    by (simp add: findUniqueSubhash_def Let_def stop split: sum.splits)
  ultimately show ?thesis by blast
qed

theorem findUniqueSubhash_short_hash_witness:
  "length ''abcdef1234'' \<le> MIN_STORED_ID_LENGTH + 1
   \<and> findUniqueSubhash scenario_store None ''abcdef1234'' = Inl (exhausted ''abcdef1234'')"
proof -
  have a: "length ''abcdef1234'' \<le> MIN_STORED_ID_LENGTH + 1"
    by (simp add: MIN_STORED_ID_LENGTH_def)
  from findUniqueSubhash_short_hash[OF a, of scenario_store] a show ?thesis by blast
qed

end
